theory Spec2Isabelle
  imports Main
begin

section \<open>JavaScript values and the object heap\<close>

text \<open>
  The store of \<^verbatim>\<open>src/index.js\<close> is written in JavaScript: its state, its actions and
  its reducer table are objects that the caller shares with the store by reference.
  Values are therefore primitives or references into a heap of objects, and every
  operation passes the heap along.

  The extent of the model:
  \<^item> numbers are the integers and \<open>NaN\<close> (the store uses numbers only through
    \<^verbatim>\<open>typeof\<close>, \<^verbatim>\<open>!==\<close> and array indexing); symbols and bigints are left out;
  \<^item> an object holds its own enumerable properties, which are what \<^verbatim>\<open>Object.assign\<close>
    copies; what a property read finds beyond them (a property inherited along the
    prototype chain such as \<^verbatim>\<open>toString\<close>, or an own property that is not enumerable
    such as the \<^verbatim>\<open>length\<close> of an array) is given by the environment \<open>env\<close>; accessor
    properties are read like data properties;
  \<^item> a function value is an identifier, and the environment says what calling it does,
    for the functions of the caller and the built-in ones alike: the call returns a value
    or throws, and leaves a heap; it does not call back into the store;
  \<^item> \<^verbatim>\<open>Object.prototype\<close> is as the language defines it: the object that the store
    creates for its chains inherits its twelve standard members and nothing else;
  \<^item> the depth of the call stack is a number, and a \<^verbatim>\<open>dispatch\<close> called beyond it throws the
    engine's \<^verbatim>\<open>RangeError\<close>.
\<close>

type_synonym addr = nat
type_synonym fid = nat

datatype jsnum = NaN | Fin int

datatype jsval =
    Undefined
  | Null
  | Bool bool
  | Num jsnum
  | Str string
  | Fun fid
  | Ref addr

type_synonym props = "string \<rightharpoonup> jsval"

text \<open>
  An object in the heap is its own enumerable properties and the flag that
  \<^verbatim>\<open>Array.isArray\<close> reads.
\<close>

datatype obj = Obj (is_array: bool) (props: props)

type_synonym heap = "obj list"

definition obj_at :: "heap \<Rightarrow> addr \<Rightarrow> obj" where
  "obj_at h a = (if a < length h then h ! a else Obj False Map.empty)"

definition alloc :: "obj \<Rightarrow> heap \<Rightarrow> addr \<times> heap" where
  "alloc ob h = (length h, h @ [ob])"

fun typeof :: "jsval \<Rightarrow> string" where
  "typeof Undefined = ''undefined''"
| "typeof Null = ''object''"
| "typeof (Bool b) = ''boolean''"
| "typeof (Num n) = ''number''"
| "typeof (Str s) = ''string''"
| "typeof (Fun f) = ''function''"
| "typeof (Ref a) = ''object''"

definition isFunc :: "jsval \<Rightarrow> bool" where
  "isFunc maybeFunc = (typeof maybeFunc = ''function'')"

definition isObj :: "jsval \<Rightarrow> bool" where
  "isObj maybeObj = (typeof maybeObj = ''object'')"

definition isNumber :: "jsval \<Rightarrow> bool" where
  "isNumber maybeNum = (typeof maybeNum = ''number'')"

text \<open>\<^verbatim>\<open>a !== b\<close>: identity of references, equality of primitives, \<open>NaN\<close> unequal to itself.\<close>

definition strict_neq :: "jsval \<Rightarrow> jsval \<Rightarrow> bool" where
  "strict_neq a b = (a \<noteq> b \<or> a = Num NaN)"

subsection \<open>Property keys\<close>

definition digit :: "nat \<Rightarrow> char" where
  "digit n = ''0123456789'' ! (n mod 10)"

fun show_nat :: "nat \<Rightarrow> string" where
  "show_nat n = (if n < 10 then [digit n] else show_nat (n div 10) @ [digit n])"

declare show_nat.simps [simp del]

definition show_int :: "int \<Rightarrow> string" where
  "show_int i = (if i < 0 then CHR ''-'' # show_nat (nat (- i)) else show_nat (nat i))"

text \<open>
  What a call can throw: the errors of the language and of the event emitter, and
  whatever value a function of the caller throws.
\<close>

datatype error = TypeError | RangeError | EmitterError | Thrown jsval

text \<open>
  The environment stands for the code and the objects outside the store. \<open>fcall\<close> runs
  a function value on a heap, a \<^verbatim>\<open>this\<close> value and an argument list: it returns a value
  or throws, and gives the heap it leaves. \<open>text_of\<close> is the string that a function or
  an object converts to (its \<^verbatim>\<open>toString\<close>), and the exponent form in which a number
  from \<open>10\<^sup>2\<^sup>1\<close> on is printed. \<open>inherited h v k\<close> is what reading \<^verbatim>\<open>v[k]\<close> finds
  when \<open>k\<close> is not an own enumerable property of \<open>v\<close>: the value of a non-enumerable
  own property or of a property along the prototype chain of \<open>v\<close>, and \<^verbatim>\<open>undefined\<close>
  when there is none. No function called calls back into the store.
\<close>

record env =
  fcall :: "fid \<Rightarrow> heap \<Rightarrow> jsval \<Rightarrow> jsval list \<Rightarrow> (error + jsval) \<times> heap"
  text_of :: "heap \<Rightarrow> jsval \<Rightarrow> string"
  inherited :: "heap \<Rightarrow> jsval \<Rightarrow> string \<Rightarrow> jsval"

text \<open>The string a value converts to, as a property key and inside a template literal.\<close>

fun to_key :: "env \<Rightarrow> heap \<Rightarrow> jsval \<Rightarrow> string" where
  "to_key E h Undefined = ''undefined''"
| "to_key E h Null = ''null''"
| "to_key E h (Bool b) = (if b then ''true'' else ''false'')"
| "to_key E h (Num NaN) = ''NaN''"
| "to_key E h (Num (Fin i)) = (if \<bar>i\<bar> < 10 ^ 21 then show_int i else text_of E h (Num (Fin i)))"
| "to_key E h (Str s) = s"
| "to_key E h (Fun f) = text_of E h (Fun f)"
| "to_key E h (Ref a) = text_of E h (Ref a)"

subsection \<open>Reading and copying properties\<close>

definition index_props :: "jsval list \<Rightarrow> props" where
  "index_props vs = map_of (zip (map show_nat [0..<length vs]) vs)"

text \<open>The own enumerable properties that \<^verbatim>\<open>Object.assign\<close> copies out of a source.\<close>

fun own_props :: "heap \<Rightarrow> jsval \<Rightarrow> props" where
  "own_props h (Ref a) = props (obj_at h a)"
| "own_props h (Str s) = index_props (map (\<lambda>c. Str [c]) s)"
| "own_props h v = Map.empty"

text \<open>
  Reading the property \<open>k\<close> of a value that is not \<^verbatim>\<open>undefined\<close> or \<^verbatim>\<open>null\<close>: an own
  enumerable property if there is one, and what the value inherits otherwise.
\<close>

definition get_prop :: "env \<Rightarrow> heap \<Rightarrow> jsval \<Rightarrow> string \<Rightarrow> jsval" where
  "get_prop E h v k = (case own_props h v k of Some x \<Rightarrow> x | None \<Rightarrow> inherited E h v k)"

text \<open>\<^verbatim>\<open>v[k]\<close>: reading a property of \<^verbatim>\<open>undefined\<close> or \<^verbatim>\<open>null\<close> throws.\<close>

definition member :: "env \<Rightarrow> heap \<Rightarrow> jsval \<Rightarrow> string \<Rightarrow> error + jsval" where
  "member E h v k = (if v = Undefined \<or> v = Null then Inl TypeError else Inr (get_prop E h v k))"

definition put_props :: "heap \<Rightarrow> addr \<Rightarrow> props \<Rightarrow> heap" where
  "put_props h t ps = h[t := Obj (is_array (obj_at h t)) (props (obj_at h t) ++ ps)]"

text \<open>
  \<^verbatim>\<open>Object.assign(target, ...sources)\<close>: the sources are read from left to right and
  written into the target object only.
\<close>

fun object_assign :: "heap \<Rightarrow> addr \<Rightarrow> jsval list \<Rightarrow> heap" where
  "object_assign h t [] = h"
| "object_assign h t (s # ss) = object_assign (put_props h t (own_props h s)) t ss"

section \<open>The store\<close>

text \<open>
  The arrow function that \<^verbatim>\<open>subscribe\<close> creates closes over \<^verbatim>\<open>stateMapper\<close> and
  \<^verbatim>\<open>callback\<close>. Each one is a function object of its own; its identity is the number
  of subscribers created before it.
\<close>

datatype closure = Subscriber (ident: nat) (stateMapper: jsval) (callback: jsval)

text \<open>
  What the store does to the outside, in the order it does it: \<^verbatim>\<open>console.warn\<close> about
  the action type that has no reducer, the \<^verbatim>\<open>'change'\<close> event it emits with
  \<^verbatim>\<open>{ action, prev, state }\<close>, and the call of the callback of the subscriber with a
  given index with \<^verbatim>\<open>(action, prevTarget, target)\<close>.
\<close>

datatype event =
    Warn string
  | Change jsval jsval jsval
  | Called nat jsval jsval jsval

text \<open>
  The fields of a \<^verbatim>\<open>DispatchableStore\<close>. \<open>reducer\<close> is \<open>Undefined\<close> until
  \<^verbatim>\<open>register\<close> assigns it. \<open>listeners\<close> are the \<^verbatim>\<open>'change'\<close> listeners of the
  event emitter that the class extends, in registration order.
\<close>

record store =
  state :: jsval
  reducer :: jsval
  chains :: "string \<rightharpoonup> jsval list"
  subscribers :: "closure list"
  listeners :: "closure list"

record world = store +
  heap :: heap
  trace :: "event list"

text \<open>A call either throws, leaving the world as it was at the throw, or returns.\<close>

type_synonym result = "(error \<times> world) + world"

fun forEach :: "('a \<Rightarrow> world \<Rightarrow> result) \<Rightarrow> 'a list \<Rightarrow> world \<Rightarrow> result" where
  "forEach f [] w = Inr w"
| "forEach f (x # xs) w = (case f x w of Inl e \<Rightarrow> Inl e | Inr w' \<Rightarrow> forEach f xs w')"

text \<open>
  Calling a value on a \<^verbatim>\<open>this\<close> value and arguments: a \<^verbatim>\<open>TypeError\<close> unless it is a
  function. What the function did to the heap stays when it throws.
\<close>

definition call :: "env \<Rightarrow> jsval \<Rightarrow> jsval \<Rightarrow> jsval list \<Rightarrow> world \<Rightarrow> (error \<times> world) + (jsval \<times> world)" where
  "call E f this args w =
     (case f of
        Fun n \<Rightarrow>
          (case fcall E n (heap w) this args of
             (Inl e, h') \<Rightarrow> Inl (e, w\<lparr>heap := h'\<rparr>)
           | (Inr v, h') \<Rightarrow> Inr (v, w\<lparr>heap := h'\<rparr>))
      | _ \<Rightarrow> Inl (TypeError, w))"

subsection \<open>Construction, getState, register, chain\<close>

definition constructor :: "jsval \<Rightarrow> heap \<Rightarrow> error + world" where
  "constructor arg h =
     (let (initialState, h1) =
            (if arg = Undefined
             then (let (a, h') = alloc (Obj False Map.empty) h in (Ref a, h'))
             else (arg, h))
      in if \<not> isObj initialState then Inl TypeError
         else Inr \<lparr>state = initialState, reducer = Undefined, chains = Map.empty,
                   subscribers = [], listeners = [], heap = h1, trace = []\<rparr>)"

definition getState :: "world \<Rightarrow> jsval \<times> world" where
  "getState w =
     (let (t, h1) = alloc (Obj False Map.empty) (heap w);
          h2 = object_assign h1 t [state w]
      in (Ref t, w\<lparr>heap := h2\<rparr>))"

definition register :: "jsval \<Rightarrow> world \<Rightarrow> result" where
  "register r w = (if \<not> isObj r then Inl (TypeError, w) else Inr (w\<lparr>reducer := r\<rparr>))"

text \<open>
  \<^verbatim>\<open>this.chains\<close> is an object that the constructor creates with \<^verbatim>\<open>{}\<close>, so a read
  \<^verbatim>\<open>this.chains[k]\<close> finds the array that \<^verbatim>\<open>chain\<close> has stored under \<open>k\<close> and
  otherwise the member of \<^verbatim>\<open>Object.prototype\<close> that \<open>k\<close> names, if it names one. The map
  \<open>chains\<close> holds the arrays. The members are eleven functions and, under
  \<^verbatim>\<open>__proto__\<close>, the prototype object: none of them is falsy, is an array, or has a
  \<^verbatim>\<open>push\<close>.
\<close>

definition object_prototype_keys :: "string list" where
  "object_prototype_keys =
     [''constructor'', ''hasOwnProperty'', ''isPrototypeOf'', ''propertyIsEnumerable'',
      ''toLocaleString'', ''toString'', ''valueOf'', ''__defineGetter__'', ''__defineSetter__'',
      ''__lookupGetter__'', ''__lookupSetter__'', ''__proto__'']"

text \<open>
  \<^verbatim>\<open>chain(from, action)\<close>. Under a key that names a member of \<^verbatim>\<open>Object.prototype\<close> and
  holds no array, \<^verbatim>\<open>this.chains[from] || []\<close> is that member, the assignment stores it
  where reads found it already, and the call of its missing \<^verbatim>\<open>push\<close> throws.
\<close>

definition chain :: "env \<Rightarrow> jsval \<Rightarrow> jsval \<Rightarrow> world \<Rightarrow> result" where
  "chain E from action w =
     (let k = to_key E (heap w) from in
      case chains w k of
        Some as \<Rightarrow> Inr (w\<lparr>chains := (chains w)(k \<mapsto> as @ [action])\<rparr>)
      | None \<Rightarrow>
          if k \<in> set object_prototype_keys then Inl (TypeError, w)
          else Inr (w\<lparr>chains := (chains w)(k \<mapsto> [action])\<rparr>))"

subsection \<open>The event emitter\<close>

text \<open>
  The store emits one event only, \<^verbatim>\<open>this.emit('change', { action, prev, state })\<close>, and
  every listener is an arrow function \<^verbatim>\<open>({ action, prev, state }) => ...\<close> of
  \<^verbatim>\<open>subscribe\<close>. No other code can reach the object that carries the three values, so
  it is passed as the three values.
\<close>

type_synonym change = "jsval \<times> jsval \<times> jsval"

text \<open>
  Modelled from the spec: \<^verbatim>\<open>on\<close> of the publish/subscribe primitive (the
  \<^verbatim>\<open>eventemitter2\<close> package that the class extends is not part of the sources). It
  appends the listener to the listeners of \<^verbatim>\<open>'change'\<close>.
\<close>

definition on :: "closure \<Rightarrow> world \<Rightarrow> world" where
  "on l w = w\<lparr>listeners := listeners w @ [l]\<rparr>"

text \<open>
  Modelled from the spec: \<^verbatim>\<open>off\<close> of the publish/subscribe primitive. It detaches the
  first listener identical to the one given, does nothing when there is none, and raises
  the emitter's own error when it is given no function (\<^verbatim>\<open>undefined\<close> here).
\<close>

definition off :: "closure option \<Rightarrow> world \<Rightarrow> result" where
  "off l w =
     (case l of
        None \<Rightarrow> Inl (EmitterError, w)
      | Some c \<Rightarrow> Inr (w\<lparr>listeners := remove1 c (listeners w)\<rparr>))"

text \<open>
  Modelled from the spec: \<^verbatim>\<open>emit\<close> of the publish/subscribe primitive. It calls the
  listeners present when it starts, synchronously and in registration order; a listener
  that throws ends it. \<open>run\<close> says what calling a listener does.
\<close>

definition emit :: "(closure \<Rightarrow> change \<Rightarrow> world \<Rightarrow> result) \<Rightarrow> change \<Rightarrow> world \<Rightarrow> result" where
  "emit run ev w = forEach (\<lambda>l. run l ev) (listeners w) w"

subsection \<open>subscribe, unsubscribe\<close>

text \<open>
  The body of the arrow function \<^verbatim>\<open>subscriber\<close> of the closure \<open>c\<close>. The state mapper
  and the callback are called as plain functions, with no \<^verbatim>\<open>this\<close>.
\<close>

fun subscriber :: "env \<Rightarrow> closure \<Rightarrow> change \<Rightarrow> world \<Rightarrow> result" where
  "subscriber E c (action, prev, st) w =
     (case call E (stateMapper c) Undefined [st] w of
        Inl e \<Rightarrow> Inl e
      | Inr (target, w1) \<Rightarrow>
          (case call E (stateMapper c) Undefined [prev] w1 of
             Inl e \<Rightarrow> Inl e
           | Inr (prevTarget, w2) \<Rightarrow>
               if strict_neq target prevTarget
               then (case call E (callback c) Undefined [action, prevTarget, target]
                            (w2\<lparr>trace := trace w2 @ [Called (ident c) action prevTarget target]\<rparr>) of
                       Inl e \<Rightarrow> Inl e
                     | Inr (r, w3) \<Rightarrow> Inr w3)
               else Inr w2))"

definition subscribe :: "jsval \<Rightarrow> jsval \<Rightarrow> world \<Rightarrow> (error \<times> world) + (jsval \<times> world)" where
  "subscribe mapper cb w =
     (if \<not> isFunc cb then Inl (TypeError, w)
      else (let c = Subscriber (length (subscribers w)) mapper cb;
                w1 = w\<lparr>subscribers := subscribers w @ [c]\<rparr>;
                w2 = on c w1
            in Inr (Num (Fin (int (length (subscribers w2)) - 1)), w2)))"

text \<open>\<^verbatim>\<open>this.subscribers[index]\<close>: \<^verbatim>\<open>undefined\<close> outside the array.\<close>

fun subscriber_at :: "closure list \<Rightarrow> jsval \<Rightarrow> closure option" where
  "subscriber_at cs (Num (Fin i)) = (if 0 \<le> i \<and> nat i < length cs then Some (cs ! nat i) else None)"
| "subscriber_at cs v = None"

definition unsubscribe :: "jsval \<Rightarrow> world \<Rightarrow> result" where
  "unsubscribe index w =
     (if \<not> isNumber index then Inl (TypeError, w)
      else off (subscriber_at (subscribers w) index) w)"

subsection \<open>setState and dispatch\<close>

definition setState :: "env \<Rightarrow> jsval \<Rightarrow> jsval \<Rightarrow> world \<Rightarrow> result" where
  "setState E nextState action w =
     (let prev = state w;
          w1 = w\<lparr>state := nextState, trace := trace w @ [Change action prev nextState]\<rparr>
      in emit (subscriber E) (action, prev, nextState) w1)"

text \<open>
  The reducer step of \<^verbatim>\<open>dispatch\<close>: the \<^verbatim>\<open>if\<close> on
  \<^verbatim>\<open>isFunc(this.reducer[act.type])\<close> with its two branches. The function found is
  called as a method of the reducer table.
\<close>

definition reduce :: "env \<Rightarrow> jsval \<Rightarrow> world \<Rightarrow> result" where
  "reduce E act w =
     (let ty = get_prop E (heap w) act ''type'' in
      case member E (heap w) (reducer w) (to_key E (heap w) ty) of
        Inl e \<Rightarrow> Inl (e, w)
      | Inr r \<Rightarrow>
          if isFunc r
          then (case call E r (reducer w) [state w, get_prop E (heap w) act ''payload''] w of
                  Inl e \<Rightarrow> Inl e
                | Inr (nextState, w1) \<Rightarrow> setState E nextState act w1)
          else Inr (w\<lparr>trace := trace w @ [Warn (to_key E (heap w) ty)]\<rparr>))"

text \<open>
  The first statement of \<^verbatim>\<open>dispatch\<close>:
  \<^verbatim>\<open>Object.assign({}, action, { '@@chained': chained })\<close>. Both object literals are
  allocated, and the first is the target.
\<close>

definition make_act :: "jsval \<Rightarrow> bool \<Rightarrow> heap \<Rightarrow> jsval \<times> heap" where
  "make_act action chained h =
     (let (t, h1) = alloc (Obj False Map.empty) h;
          (l, h2) = alloc (Obj False [''@@chained'' \<mapsto> Bool chained]) h1
      in (Ref t, object_assign h2 t [action, Ref l]))"

text \<open>
  \<^verbatim>\<open>dispatch(action, chained)\<close>. The first argument is the depth of call stack left: a
  chain that calls deeper than the stack allows ends in the engine's \<^verbatim>\<open>RangeError\<close>.
  \<^verbatim>\<open>Array.isArray(this.chains[act.type])\<close> holds exactly of the arrays that \<^verbatim>\<open>chain\<close>
  has stored.
\<close>

fun dispatch :: "nat \<Rightarrow> env \<Rightarrow> jsval \<Rightarrow> bool \<Rightarrow> world \<Rightarrow> result" where
  "dispatch 0 E action chained w = Inl (RangeError, w)"
| "dispatch (Suc d) E action chained w =
     (let (act, h) = make_act action chained (heap w)
      in case reduce E act (w\<lparr>heap := h\<rparr>) of
           Inl e \<Rightarrow> Inl e
         | Inr w1 \<Rightarrow>
             (case chains w1 (to_key E (heap w1) (get_prop E (heap w1) act ''type'')) of
                Some as \<Rightarrow> forEach (\<lambda>a. dispatch d E a True) as w1
              | None \<Rightarrow> Inr w1))"

text \<open>The world a call leaves, whether it returned or threw.\<close>

definition world_of :: "result \<Rightarrow> world" where
  "world_of r = (case r of Inl (e, w) \<Rightarrow> w | Inr w \<Rightarrow> w)"

definition thrown :: "result \<Rightarrow> error option" where
  "thrown r = (case r of Inl (e, w) \<Rightarrow> Some e | Inr w \<Rightarrow> None)"

section \<open>What a dispatch can do to the store\<close>

text \<open>
  The properties below are invariants of everything \<^verbatim>\<open>dispatch\<close> does. They are proved
  once for the elementary changes a dispatch is made of. \<open>notifying E L\<close> collects what
  running listeners out of \<open>L\<close> does: a call of one of the caller's functions changes
  the heap, and a callback that is called is written to the trace. \<open>steps\<close> adds what
  \<^verbatim>\<open>dispatch\<close> and \<^verbatim>\<open>setState\<close> do themselves: the copy of the action, the new state
  with its \<^verbatim>\<open>'change'\<close> event, and the warning.
\<close>

inductive notifying :: "env \<Rightarrow> closure set \<Rightarrow> world \<Rightarrow> world \<Rightarrow> bool"
  for E :: env and L :: "closure set" where
  idle: "notifying E L w w"
| after: "notifying E L w w1 \<Longrightarrow> notifying E L w1 w2 \<Longrightarrow> notifying E L w w2"
| ran: "notifying E L w (w\<lparr>heap := snd (fcall E f (heap w) t args)\<rparr>)"
| told: "c \<in> L \<Longrightarrow> notifying E L w (w\<lparr>trace := trace w @ [Called (ident c) a p t]\<rparr>)"

inductive steps :: "env \<Rightarrow> world \<Rightarrow> world \<Rightarrow> bool" for E :: env where
  same: "steps E w w"
| seq: "steps E w w1 \<Longrightarrow> steps E w1 w2 \<Longrightarrow> steps E w w2"
| copied: "steps E w (w\<lparr>heap := snd (make_act a c (heap w))\<rparr>)"
| notified: "notifying E (set (listeners w)) w w' \<Longrightarrow> steps E w w'"
| committed: "steps E w (w\<lparr>state := s, trace := trace w @ [Change a (state w) s]\<rparr>)"
| warned: "steps E w (w\<lparr>trace := trace w @ [Warn k]\<rparr>)"

text \<open>
  Replaying a trace from a state: every \<^verbatim>\<open>'change'\<close> event must start at the state
  reached so far and leads to its own new state; no other event moves the state.
\<close>

fun replay :: "jsval \<Rightarrow> event list \<Rightarrow> jsval option" where
  "replay s [] = Some s"
| "replay s (Change a p n # es) = (if p = s then replay n es else None)"
| "replay s (e # es) = replay s es"

fun is_change :: "event \<Rightarrow> bool" where
  "is_change (Change a p n) = True"
| "is_change e = False"

text \<open>The calls of the callback of the subscriber with index \<open>i\<close>.\<close>

fun is_call :: "nat \<Rightarrow> event \<Rightarrow> bool" where
  "is_call i (Called j a p t) = (j = i)"
| "is_call i e = False"

definition calls :: "nat \<Rightarrow> event list \<Rightarrow> event list" where
  "calls i es = filter (is_call i) es"

text \<open>The events a call appended to the trace of \<open>w\<close>.\<close>

definition added :: "world \<Rightarrow> result \<Rightarrow> event list" where
  "added w r = drop (length (trace w)) (trace (world_of r))"

text \<open>
  What the claim on subscribers expects of the subscriber \<open>c\<close> for one \<^verbatim>\<open>'change'\<close>
  event, when its turn comes at heap \<open>h\<close>: one call with
  \<^verbatim>\<open>(action, m(prev), m(state))\<close> if the two derived values differ by \<^verbatim>\<open>!==\<close>, and no
  call otherwise.
\<close>

fun expected_calls :: "env \<Rightarrow> closure \<Rightarrow> change \<Rightarrow> heap \<Rightarrow> event list" where
  "expected_calls E (Subscriber i (Fun m) cb) (action, prev, st) h =
     (case fcall E m h Undefined [st] of
        (Inr target, h1) \<Rightarrow>
          (case fcall E m h1 Undefined [prev] of
             (Inr prevTarget, h2) \<Rightarrow>
               if strict_neq target prevTarget then [Called i action prevTarget target] else []
           | (Inl e, h2) \<Rightarrow> [])
      | (Inl e, h1) \<Rightarrow> [])"
| "expected_calls E c ev h = []"

text \<open>The heap at which the turn of the listener \<open>c\<close> comes when \<open>ev\<close> is emitted in \<open>w\<close>.\<close>

definition turn_heap :: "env \<Rightarrow> closure \<Rightarrow> change \<Rightarrow> world \<Rightarrow> heap" where
  "turn_heap E c ev w =
     heap (world_of (forEach (\<lambda>l. subscriber E l ev) (takeWhile (\<lambda>l. l \<noteq> c) (listeners w)) w))"

text \<open>The caller's functions leave the object at address \<open>x\<close> as it is.\<close>

definition untouched :: "env \<Rightarrow> addr \<Rightarrow> bool" where
  "untouched E x =
     (\<forall>f h t args. x < length h \<longrightarrow>
        x < length (snd (fcall E f h t args)) \<and> snd (fcall E f h t args) ! x = h ! x)"

text \<open>The value is a function, and every call of it returns.\<close>

definition returns :: "env \<Rightarrow> jsval \<Rightarrow> bool" where
  "returns E v = (\<exists>n. v = Fun n \<and> (\<forall>h t args. \<not> isl (fst (fcall E n h t args))))"

text \<open>
  What holds of the subscriptions of every store built through its operations: the
  closure at index \<open>j\<close> is the \<open>j\<close>-th that \<^verbatim>\<open>subscribe\<close> created, its callback passed
  the check of \<^verbatim>\<open>subscribe\<close>, and the listeners are subscribers, each attached once.
\<close>

definition store_inv :: "world \<Rightarrow> bool" where
  "store_inv w =
     ((\<forall>j < length (subscribers w). ident (subscribers w ! j) = j)
      \<and> (\<forall>c \<in> set (subscribers w). isFunc (callback c))
      \<and> set (listeners w) \<subseteq> set (subscribers w)
      \<and> distinct (listeners w))"

text \<open>
  What the caller can do to a store on which the subscription with index \<open>i\<close> is to
  stay: any sequence of operations, returned or thrown, but for \<^verbatim>\<open>unsubscribe(i)\<close>.
\<close>

inductive later :: "env \<Rightarrow> nat \<Rightarrow> world \<Rightarrow> world \<Rightarrow> bool" for E :: env and i :: nat where
  same: "later E i w w"
| seq: "later E i w w1 \<Longrightarrow> later E i w1 w2 \<Longrightarrow> later E i w w2"
| dispatched: "later E i w (world_of (dispatch d E a c w))"
| registered: "later E i w (world_of (register r w))"
| chained: "later E i w (world_of (chain E f a w))"
| read: "later E i w (snd (getState w))"
| subscribed: "subscribe m cb w = Inr (j, w') \<Longrightarrow> later E i w w'"
| unsubscribed: "j \<noteq> Num (Fin (int i)) \<Longrightarrow> later E i w (world_of (unsubscribe j w))"

section \<open>A concrete store\<close>

text \<open>
  The caller's code of the examples below:
  \<^verbatim>\<open>
  const f0 = (state, payload) => payload        // function 0
  const f1 = state => state                     // function 1
  const f2 = (action, prev, state) => {}        // function 2
  const initial  = { count: 0 }                 // address 0
  const reducers = { A: f0, B: f0 }             // address 1
  const actionA  = { type: 'A', payload: 1 }    // address 2
  const actionB  = { type: 'B', payload: 2 }    // address 3
  const list     = [1, 2]                       // address 4
  const onlyB    = { B: f0 }                    // address 5
  const actionC  = { type: 'C' }                // address 6
  \<close>
\<close>

definition arg :: "jsval list \<Rightarrow> nat \<Rightarrow> jsval" where
  "arg args i = (if i < length args then args ! i else Undefined)"

text \<open>
  The function members of \<^verbatim>\<open>Object.prototype\<close>, which every plain object of the example
  inherits, are the functions 100 to 110. (The prototype object itself, which
  \<^verbatim>\<open>__proto__\<close> names, is not an object of the example, and neither is what the array
  inherits from \<^verbatim>\<open>Array.prototype\<close>.)
\<close>

definition demo_members :: "(string \<times> jsval) list" where
  "demo_members =
     [(''constructor'', Fun 100), (''hasOwnProperty'', Fun 101), (''isPrototypeOf'', Fun 102),
      (''propertyIsEnumerable'', Fun 103), (''toLocaleString'', Fun 104), (''toString'', Fun 105),
      (''valueOf'', Fun 106), (''__defineGetter__'', Fun 107), (''__defineSetter__'', Fun 108),
      (''__lookupGetter__'', Fun 109), (''__lookupSetter__'', Fun 110)]"

definition demo_inherited :: "heap \<Rightarrow> jsval \<Rightarrow> string \<Rightarrow> jsval" where
  "demo_inherited h v k =
     (case v of
        Ref a \<Rightarrow>
          (if is_array (obj_at h a) then Undefined
           else (case map_of demo_members k of Some f \<Rightarrow> f | None \<Rightarrow> Undefined))
      | _ \<Rightarrow> Undefined)"

text \<open>
  The strings of the example: a plain object converts to \<^verbatim>\<open>'[object Object]'\<close>, a
  function of the caller to its source text, a built-in function to the text that names
  it, and a number from \<open>10\<^sup>2\<^sup>1\<close> on to its digits in exponent form (the numbers
  of the example have no more significant digits than a number can hold). No array is
  converted to a string in the example.
\<close>

definition demo_exponent :: "int \<Rightarrow> string" where
  "demo_exponent i =
     (let ds = show_nat (nat \<bar>i\<bar>);
          m = rev (dropWhile (\<lambda>c. c = CHR ''0'') (rev ds))
      in (if i < 0 then ''-'' else []) @ [hd m] @ (if tl m = [] then [] else CHR ''.'' # tl m)
           @ ''e+'' @ show_nat (length ds - 1))"

definition demo_text_of :: "heap \<Rightarrow> jsval \<Rightarrow> string" where
  "demo_text_of h v =
     (case v of
        Num (Fin i) \<Rightarrow> demo_exponent i
      | Fun f \<Rightarrow>
          (if f = 0 then ''(state, payload) => payload''
           else if f = 1 then ''state => state''
           else if f = 2 then ''(action, prev, state) => {}''
           else (case filter (\<lambda>(k, g). g = Fun f) demo_members of
                   (k, g) # ms \<Rightarrow> ''function '' @ k @ ''() { [native code] }''
                 | [] \<Rightarrow> ''function () { [native code] }''))
      | _ \<Rightarrow> ''[object Object]'')"

text \<open>The property key that a value converts to in the example.\<close>

definition demo_key :: "heap \<Rightarrow> jsval \<Rightarrow> string" where
  "demo_key h v =
     to_key \<lparr>fcall = (\<lambda>f h t args. (Inr Undefined, h)), text_of = demo_text_of,
             inherited = (\<lambda>h v k. Undefined)\<rparr> h v"

text \<open>\<^verbatim>\<open>Object(v)\<close>: an object as it is, and a new wrapper object for a primitive.\<close>

definition demo_object :: "heap \<Rightarrow> jsval \<Rightarrow> jsval \<times> heap" where
  "demo_object h v =
     (case v of
        Ref a \<Rightarrow> (v, h)
      | Fun f \<Rightarrow> (v, h)
      | _ \<Rightarrow> (Ref (length h), h @ [Obj False (own_props h v)]))"

text \<open>The tag that \<^verbatim>\<open>Object.prototype.toString\<close> prints for its \<^verbatim>\<open>this\<close> value.\<close>

definition demo_tag :: "heap \<Rightarrow> jsval \<Rightarrow> string" where
  "demo_tag h v =
     (case v of
        Undefined \<Rightarrow> ''[object Undefined]''
      | Null \<Rightarrow> ''[object Null]''
      | Bool b \<Rightarrow> ''[object Boolean]''
      | Num n \<Rightarrow> ''[object Number]''
      | Str s \<Rightarrow> ''[object String]''
      | Fun f \<Rightarrow> ''[object Function]''
      | Ref a \<Rightarrow> (if is_array (obj_at h a) then ''[object Array]'' else ''[object Object]''))"

text \<open>
  What calling the functions of the example does: \<^verbatim>\<open>f0\<close>, \<^verbatim>\<open>f1\<close> and \<^verbatim>\<open>f2\<close> of the
  caller, and the members of \<^verbatim>\<open>Object.prototype\<close>. \<^verbatim>\<open>Object\<close> (100) and \<^verbatim>\<open>valueOf\<close>
  (106) give an object; \<^verbatim>\<open>hasOwnProperty\<close> (101) and \<^verbatim>\<open>propertyIsEnumerable\<close> (103)
  look for an own enumerable property; \<^verbatim>\<open>isPrototypeOf\<close> (102) is false, as no object of
  the example is the prototype of another; \<^verbatim>\<open>toLocaleString\<close> (104) and \<^verbatim>\<open>toString\<close>
  (105) print the tag; \<^verbatim>\<open>__defineGetter__\<close> (107) and \<^verbatim>\<open>__defineSetter__\<close> (108) throw
  unless their second argument is a function (the accessor that they define otherwise
  is not modelled); \<^verbatim>\<open>__lookupGetter__\<close> (109) and \<^verbatim>\<open>__lookupSetter__\<close> (110) find
  none.
\<close>

definition demo_fcall :: "fid \<Rightarrow> heap \<Rightarrow> jsval \<Rightarrow> jsval list \<Rightarrow> (error + jsval) \<times> heap" where
  "demo_fcall f h this args =
     (if f = 0 then (Inr (arg args 1), h)
      else if f = 1 then (Inr (arg args 0), h)
      else if f = 100 then (Inr (fst (demo_object h (arg args 0))), snd (demo_object h (arg args 0)))
      else if f = 101 \<or> f = 103 then
        (if this = Undefined \<or> this = Null then (Inl TypeError, h)
         else (Inr (Bool (own_props h this (demo_key h (arg args 0)) \<noteq> None)), h))
      else if f = 102 then (Inr (Bool False), h)
      else if f = 104 \<or> f = 105 then (Inr (Str (demo_tag h this)), h)
      else if f = 106 then
        (if this = Undefined \<or> this = Null then (Inl TypeError, h)
         else (Inr (fst (demo_object h this)), snd (demo_object h this)))
      else if f = 107 \<or> f = 108 then
        (if isFunc (arg args 1) then (Inr Undefined, h) else (Inl TypeError, h))
      else (Inr Undefined, h))"

definition demo_env :: env where
  "demo_env = \<lparr>fcall = demo_fcall, text_of = demo_text_of, inherited = demo_inherited\<rparr>"

definition demo_heap :: heap where
  "demo_heap =
     [Obj False [''count'' \<mapsto> Num (Fin 0)],
      Obj False [''A'' \<mapsto> Fun 0, ''B'' \<mapsto> Fun 0],
      Obj False [''type'' \<mapsto> Str ''A'', ''payload'' \<mapsto> Num (Fin 1)],
      Obj False [''type'' \<mapsto> Str ''B'', ''payload'' \<mapsto> Num (Fin 2)],
      Obj True (index_props [Num (Fin 1), Num (Fin 2)]),
      Obj False [''B'' \<mapsto> Fun 0],
      Obj False [''type'' \<mapsto> Str ''C'']]"

text \<open>\<^verbatim>\<open>new DispatchableStore(initial)\<close>\<close>

definition demo_store :: world where
  "demo_store = \<lparr>state = Ref 0, reducer = Undefined, chains = Map.empty,
                  subscribers = [], listeners = [], heap = demo_heap, trace = []\<rparr>"

text \<open>\<^verbatim>\<open>store.register(reducers)\<close>\<close>

definition demo_registered :: world where
  "demo_registered = demo_store\<lparr>reducer := Ref 1\<rparr>"

text \<open>\<^verbatim>\<open>store.chain('A', actionB)\<close>\<close>

definition demo_chained :: world where
  "demo_chained = demo_registered\<lparr>chains := [''A'' \<mapsto> [Ref 3]]\<rparr>"

text \<open>\<^verbatim>\<open>store.subscribe(f1)(f2)\<close>, which returns the index 0.\<close>

definition demo_subscribed :: world where
  "demo_subscribed = demo_chained\<lparr>subscribers := [Subscriber 0 (Fun 1) (Fun 2)],
                                    listeners := [Subscriber 0 (Fun 1) (Fun 2)]\<rparr>"


section \<open>Basic facts\<close>

lemma world_of_simps [simp]: "world_of (Inl (e, w)) = w" "world_of (Inr w) = w"
  by (simp_all add: world_of_def)

lemma thrown_simps [simp]: "thrown (Inl (e, w)) = Some e" "thrown (Inr w) = None"
  by (simp_all add: thrown_def)

lemma calls_append [simp]: "calls i (xs @ ys) = calls i xs @ calls i ys"
  by (simp add: calls_def)

lemma replay_append:
  "replay s (xs @ ys) = (case replay s xs of None \<Rightarrow> None | Some s' \<Rightarrow> replay s' ys)"
  by (induction s xs rule: replay.induct) simp_all

lemma replay_calls_only: "\<forall>e \<in> set es. \<not> is_change e \<Longrightarrow> replay s es = Some s"
  by (induction s es rule: replay.induct) simp_all

subsection \<open>forEach\<close>

text \<open>A reflexive and transitive relation that every round of a loop keeps holds of the loop.\<close>

lemma forEach_rel:
  assumes refl: "\<And>v. R v v"
    and trans: "\<And>u v x. R u v \<Longrightarrow> R v x \<Longrightarrow> R u x"
    and step: "\<And>x w'. x \<in> set xs \<Longrightarrow> R w w' \<Longrightarrow> R w' (world_of (f x w'))"
  shows "R w (world_of (forEach f xs w))"
  using step
proof (induction xs arbitrary: w)
  case Nil
  show ?case by (simp add: refl)
next
  case (Cons x xs)
  have first: "R w (world_of (f x w))"
    by (rule Cons.prems) (simp_all add: refl)
  show ?case
  proof (cases "f x w")
    case (Inl p)
    obtain e w1 where "p = (e, w1)" by (cases p)
    then show ?thesis using first Inl by simp
  next
    case (Inr w1)
    have s1: "R w w1" using first Inr by simp
    have "R w1 (world_of (forEach f xs w1))"
    proof (rule Cons.IH)
      fix y w' assume y: "y \<in> set xs" and "R w1 w'"
      with s1 have "R w w'" using trans by blast
      then show "R w' (world_of (f y w'))" using y by (intro Cons.prems) simp_all
    qed
    with s1 have "R w (world_of (forEach f xs w1))" by (rule trans)
    then show ?thesis using Inr by simp
  qed
qed

lemma forEach_append:
  "forEach f (xs @ ys) w = (case forEach f xs w of Inl e \<Rightarrow> Inl e | Inr w' \<Rightarrow> forEach f ys w')"
  by (induction xs arbitrary: w) (simp_all split: sum.splits)

subsection \<open>What notifying and steps leave alone\<close>

lemma notifying_frame:
  "notifying E L w w' \<Longrightarrow>
     state w' = state w \<and> reducer w' = reducer w \<and> chains w' = chains w
     \<and> subscribers w' = subscribers w \<and> listeners w' = listeners w"
  by (induction rule: notifying.induct) simp_all

lemma steps_frame:
  "steps E w w' \<Longrightarrow>
     reducer w' = reducer w \<and> chains w' = chains w
     \<and> subscribers w' = subscribers w \<and> listeners w' = listeners w"
  by (induction rule: steps.induct) (simp_all add: notifying_frame)

lemma notifying_trace:
  "notifying E L w w' \<Longrightarrow>
     \<exists>es. trace w' = trace w @ es \<and> (\<forall>e \<in> set es. \<exists>c \<in> L. \<exists>a p t. e = Called (ident c) a p t)"
proof (induction rule: notifying.induct)
  case (after w w1 w2)
  then obtain es1 es2 where
    "trace w1 = trace w @ es1" "\<forall>e \<in> set es1. \<exists>c \<in> L. \<exists>a p t. e = Called (ident c) a p t"
    "trace w2 = trace w1 @ es2" "\<forall>e \<in> set es2. \<exists>c \<in> L. \<exists>a p t. e = Called (ident c) a p t"
    by blast
  then have "trace w2 = trace w @ (es1 @ es2)
     \<and> (\<forall>e \<in> set (es1 @ es2). \<exists>c \<in> L. \<exists>a p t. e = Called (ident c) a p t)"
    by auto
  then show ?case by blast
qed auto

lemma notifying_replay:
  assumes "notifying E L w w'"
  shows "\<exists>es. trace w' = trace w @ es \<and> replay (state w) es = Some (state w')"
proof -
  obtain es where es: "trace w' = trace w @ es"
    and c: "\<forall>e \<in> set es. \<exists>c \<in> L. \<exists>a p t. e = Called (ident c) a p t"
    using notifying_trace [OF assms] by blast
  have "\<forall>e \<in> set es. \<not> is_change e" using c by fastforce
  then have "replay (state w) es = Some (state w)" by (rule replay_calls_only)
  then show ?thesis using es notifying_frame [OF assms] by simp
qed

lemma notifying_calls:
  assumes "notifying E L w w'" and "\<forall>c \<in> L. ident c \<noteq> i"
  shows "calls i (trace w') = calls i (trace w)"
proof -
  obtain es where es: "trace w' = trace w @ es"
    and c: "\<forall>e \<in> set es. \<exists>c \<in> L. \<exists>a p t. e = Called (ident c) a p t"
    using notifying_trace [OF assms(1)] by blast
  have "\<forall>e \<in> set es. \<not> is_call i e" using c assms(2) by fastforce
  then have "calls i es = []" by (simp add: calls_def)
  then show ?thesis using es by simp
qed

lemma steps_replay:
  "steps E w w' \<Longrightarrow> \<exists>es. trace w' = trace w @ es \<and> replay (state w) es = Some (state w')"
proof (induction rule: steps.induct)
  case (seq w w1 w2)
  then obtain es1 es2 where
    "trace w1 = trace w @ es1" "replay (state w) es1 = Some (state w1)"
    "trace w2 = trace w1 @ es2" "replay (state w1) es2 = Some (state w2)"
    by blast
  then have "trace w2 = trace w @ (es1 @ es2) \<and> replay (state w) (es1 @ es2) = Some (state w2)"
    by (simp add: replay_append)
  then show ?case by blast
next
  case (notified w w')
  then show ?case by (rule notifying_replay)
qed simp_all

lemma steps_calls:
  "steps E w w' \<Longrightarrow> \<forall>c \<in> set (listeners w). ident c \<noteq> i \<Longrightarrow> calls i (trace w') = calls i (trace w)"
proof (induction rule: steps.induct)
  case (seq w w1 w2)
  then show ?case using steps_frame [of E w w1] by simp
next
  case (notified w w')
  then show ?case by (rule notifying_calls)
qed (simp_all add: calls_def)

subsection \<open>The heap\<close>

lemma make_act_eq:
  "make_act a c h =
     (Ref (length h),
      h @ [Obj False ((own_props h a)(''@@chained'' \<mapsto> Bool c)), Obj False [''@@chained'' \<mapsto> Bool c]])"
proof -
  let ?lit = "Obj False [''@@chained'' \<mapsto> Bool c]"
  let ?h2 = "h @ [Obj False Map.empty, ?lit]"
  have src: "(own_props ?h2 a)(''@@chained'' \<mapsto> Bool c) = (own_props h a)(''@@chained'' \<mapsto> Bool c)"
  proof (cases a)
    case (Ref x)
    consider "x < length h" | "x = length h" | "x = Suc (length h)" | "Suc (length h) < x" by linarith
    then show ?thesis
      by cases (simp_all add: Ref obj_at_def nth_append)
  qed simp_all
  have "object_assign ?h2 (length h) [a, Ref (Suc (length h))]
      = h @ [Obj False ((own_props ?h2 a)(''@@chained'' \<mapsto> Bool c)), ?lit]"
    by (simp add: put_props_def obj_at_def nth_append list_update_append)
  then have "object_assign ?h2 (length h) [a, Ref (Suc (length h))]
      = h @ [Obj False ((own_props h a)(''@@chained'' \<mapsto> Bool c)), ?lit]"
    by (simp only: src)
  moreover have "make_act a c h = (Ref (length h), object_assign ?h2 (length h) [a, Ref (Suc (length h))])"
    by (simp add: make_act_def alloc_def del: object_assign.simps)
  ultimately show ?thesis by (simp only:)
qed

lemma make_act_own_props:
  "own_props (snd (make_act a c h)) (fst (make_act a c h)) = (own_props h a)(''@@chained'' \<mapsto> Bool c)"
  by (simp add: make_act_eq obj_at_def)

lemma getState_eq:
  "getState w = (Ref (length (heap w)), w\<lparr>heap := heap w @ [Obj False (own_props (heap w) (state w))]\<rparr>)"
proof -
  have "own_props (heap w @ [Obj False Map.empty]) (state w) = own_props (heap w) (state w)"
  proof (cases "state w")
    case (Ref x)
    consider "x < length (heap w)" | "x = length (heap w)" | "length (heap w) < x" by linarith
    then show ?thesis
      by cases (simp_all add: Ref obj_at_def nth_append)
  qed simp_all
  then show ?thesis
    by (simp add: getState_def alloc_def put_props_def obj_at_def)
qed

lemma notifying_heap:
  "notifying E L w w' \<Longrightarrow> untouched E x \<Longrightarrow> x < length (heap w) \<Longrightarrow>
     x < length (heap w') \<and> heap w' ! x = heap w ! x"
  by (induction rule: notifying.induct) (auto simp: untouched_def)

lemma steps_heap:
  "steps E w w' \<Longrightarrow> untouched E x \<Longrightarrow> x < length (heap w) \<Longrightarrow>
     x < length (heap w') \<and> heap w' ! x = heap w ! x"
proof (induction rule: steps.induct)
  case (copied w a c)
  then show ?case by (simp add: make_act_eq nth_append)
next
  case (notified w w')
  then show ?case by (simp add: notifying_heap)
qed simp_all

lemma steps_obj_at:
  "steps E w w' \<Longrightarrow> untouched E x \<Longrightarrow> x < length (heap w) \<Longrightarrow> obj_at (heap w') x = obj_at (heap w) x"
  using steps_heap [of E w w' x] by (simp add: obj_at_def)

subsection \<open>Calls of the caller's functions\<close>

lemma call_Fun:
  "call E (Fun n) t args w =
     (case fst (fcall E n (heap w) t args) of
        Inl e \<Rightarrow> Inl (e, w\<lparr>heap := snd (fcall E n (heap w) t args)\<rparr>)
      | Inr v \<Rightarrow> Inr (v, w\<lparr>heap := snd (fcall E n (heap w) t args)\<rparr>))"
  by (simp add: call_def split: prod.splits sum.splits)

lemma call_returns:
  "fcall E n (heap w) t args = (Inr v, h') \<Longrightarrow> call E (Fun n) t args w = Inr (v, w\<lparr>heap := h'\<rparr>)"
  by (simp add: call_def)

lemma call_throws:
  "fcall E n (heap w) t args = (Inl e, h') \<Longrightarrow> call E (Fun n) t args w = Inl (e, w\<lparr>heap := h'\<rparr>)"
  by (simp add: call_def)

lemma call_cases:
  obtains (threw) e w' where "call E f t args w = Inl (e, w')" and "notifying E L w w'"
  | (returned) v w' where "call E f t args w = Inr (v, w')" and "notifying E L w w'"
proof (cases f)
  case (Fun n)
  have run: "notifying E L w (w\<lparr>heap := snd (fcall E n (heap w) t args)\<rparr>)"
    by (rule notifying.ran)
  show ?thesis
  proof (cases "fst (fcall E n (heap w) t args)")
    case (Inl e)
    then have "call E f t args w = Inl (e, w\<lparr>heap := snd (fcall E n (heap w) t args)\<rparr>)"
      using Fun by (simp add: call_Fun)
    then show ?thesis using run by (rule threw)
  next
    case (Inr v)
    then have "call E f t args w = Inr (v, w\<lparr>heap := snd (fcall E n (heap w) t args)\<rparr>)"
      using Fun by (simp add: call_Fun)
    then show ?thesis using run by (rule returned)
  qed
qed (auto simp: call_def intro: threw notifying.idle)

subsection \<open>dispatch is made of steps\<close>

lemma subscriber_notifying:
  assumes "c \<in> L"
  shows "notifying E L w (world_of (subscriber E c ev w))"
proof -
  obtain action prev st where ev: "ev = (action, prev, st)" by (cases ev)
  show ?thesis
  proof (cases rule: call_cases [where E = E and f = "stateMapper c" and t = Undefined and args = "[st]"
        and w = w and L = L])
    case (threw e w1)
    then show ?thesis using ev by simp
  next
    case r1: (returned target w1)
    show ?thesis
    proof (cases rule: call_cases [where E = E and f = "stateMapper c" and t = Undefined and args = "[prev]"
          and w = w1 and L = L])
      case (threw e w2)
      have "notifying E L w w2" using r1(2) threw(2) by (rule notifying.after)
      then show ?thesis using ev r1 threw by simp
    next
      case r2: (returned prevTarget w2)
      have s2: "notifying E L w w2" using r1(2) r2(2) by (rule notifying.after)
      show ?thesis
      proof (cases "strict_neq target prevTarget")
        case False
        then show ?thesis using ev r1 r2 s2 by simp
      next
        case True
        let ?w3 = "w2\<lparr>trace := trace w2 @ [Called (ident c) action prevTarget target]\<rparr>"
        have "notifying E L w2 ?w3" using assms by (rule notifying.told)
        with s2 have s3: "notifying E L w ?w3" by (rule notifying.after)
        show ?thesis
        proof (cases rule: call_cases [where E = E and f = "callback c" and t = Undefined
              and args = "[action, prevTarget, target]" and w = ?w3 and L = L])
          case (threw e w4)
          have "notifying E L w w4" using s3 threw(2) by (rule notifying.after)
          then show ?thesis using ev r1 r2 True threw by simp
        next
          case r4: (returned v w4)
          have "notifying E L w w4" using s3 r4(2) by (rule notifying.after)
          then show ?thesis using ev r1 r2 True r4 by simp
        qed
      qed
    qed
  qed
qed

lemma listeners_notifying:
  "notifying E (set cs) w (world_of (forEach (\<lambda>l. subscriber E l ev) cs w))"
  by (rule forEach_rel [where R = "notifying E (set cs)"])
    (auto intro: notifying.idle notifying.after subscriber_notifying)

lemma emit_notifying: "notifying E (set (listeners w)) w (world_of (emit (subscriber E) ev w))"
  unfolding emit_def by (rule listeners_notifying)

lemma setState_unfold:
  "setState E s a w
     = emit (subscriber E) (a, state w, s) (w\<lparr>state := s, trace := trace w @ [Change a (state w) s]\<rparr>)"
  by (simp add: setState_def Let_def)

lemma setState_steps: "steps E w (world_of (setState E s a w))"
proof -
  let ?w1 = "w\<lparr>state := s, trace := trace w @ [Change a (state w) s]\<rparr>"
  have "steps E w ?w1" by (rule steps.committed)
  moreover have "steps E ?w1 (world_of (emit (subscriber E) (a, state w, s) ?w1))"
    using emit_notifying by (rule steps.notified)
  ultimately show ?thesis unfolding setState_unfold by (rule steps.seq)
qed

lemma setState_state: "state (world_of (setState E s a w)) = s"
  using notifying_frame [OF emit_notifying,
      of E "(a, state w, s)" "w\<lparr>state := s, trace := trace w @ [Change a (state w) s]\<rparr>"]
  by (simp add: setState_unfold)

lemma reduce_registered:
  assumes "member E (heap w) (reducer w) (to_key E (heap w) (get_prop E (heap w) act ''type'')) = Inr (Fun f)"
    and "fcall E f (heap w) (reducer w) [state w, get_prop E (heap w) act ''payload''] = (Inr s, h')"
  shows "reduce E act w = setState E s act (w\<lparr>heap := h'\<rparr>)"
  using assms by (simp add: reduce_def isFunc_def call_returns)

lemma reduce_thrown:
  assumes "member E (heap w) (reducer w) (to_key E (heap w) (get_prop E (heap w) act ''type'')) = Inr (Fun f)"
    and "fcall E f (heap w) (reducer w) [state w, get_prop E (heap w) act ''payload''] = (Inl e, h')"
  shows "reduce E act w = Inl (e, w\<lparr>heap := h'\<rparr>)"
  using assms by (simp add: reduce_def isFunc_def call_throws)

lemma reduce_unregistered:
  assumes "member E (heap w) (reducer w) (to_key E (heap w) (get_prop E (heap w) act ''type'')) = Inr r"
    and "\<not> isFunc r"
  shows "reduce E act w = Inr (w\<lparr>trace := trace w @ [Warn (to_key E (heap w) (get_prop E (heap w) act ''type''))]\<rparr>)"
  using assms by (simp add: reduce_def)

lemma reduce_steps: "steps E w (world_of (reduce E act w))"
proof (cases "member E (heap w) (reducer w) (to_key E (heap w) (get_prop E (heap w) act ''type''))")
  case (Inl e)
  then show ?thesis by (simp add: reduce_def steps.same)
next
  case (Inr r)
  show ?thesis
  proof (cases "isFunc r")
    case False
    then show ?thesis using Inr by (simp add: reduce_def steps.warned)
  next
    case True
    show ?thesis
    proof (cases rule: call_cases [where E = E and f = r and t = "reducer w"
          and args = "[state w, get_prop E (heap w) act ''payload'']" and w = w and L = "set (listeners w)"])
      case (threw e w1)
      have "steps E w w1" using threw(2) by (rule steps.notified)
      then show ?thesis using Inr True threw(1) by (simp add: reduce_def)
    next
      case (returned s w1)
      have "steps E w w1" using returned(2) by (rule steps.notified)
      then have "steps E w (world_of (setState E s act w1))"
        using setState_steps by (rule steps.seq)
      then show ?thesis using Inr True returned(1) by (simp add: reduce_def)
    qed
  qed
qed

lemma dispatch_steps: "steps E w (world_of (dispatch d E a c w))"
proof (induction d arbitrary: a c w)
  case 0
  show ?case by (simp add: steps.same)
next
  case (Suc d)
  obtain act h where m: "make_act a c (heap w) = (act, h)" by (cases "make_act a c (heap w)")
  let ?w0 = "w\<lparr>heap := h\<rparr>"
  have s0: "steps E w ?w0" using steps.copied [of E w a c] m by simp
  have s1: "steps E w (world_of (reduce E act ?w0))" using s0 reduce_steps by (rule steps.seq)
  show ?case
  proof (cases "reduce E act ?w0")
    case (Inl p)
    obtain e w1 where "p = (e, w1)" by (cases p)
    then show ?thesis using m s1 Inl by simp
  next
    case (Inr w1)
    show ?thesis
    proof (cases "chains w1 (to_key E (heap w1) (get_prop E (heap w1) act ''type''))")
      case None
      then show ?thesis using m Inr s1 by simp
    next
      case (Some as)
      have "steps E w1 (world_of (forEach (\<lambda>a. dispatch d E a True) as w1))"
        by (rule forEach_rel [where R = "steps E"]) (auto intro: steps.same steps.seq Suc.IH)
      moreover have "steps E w w1" using s1 Inr by simp
      ultimately have "steps E w (world_of (forEach (\<lambda>a. dispatch d E a True) as w1))"
        using steps.seq by blast
      then show ?thesis using m Inr Some by simp
    qed
  qed
qed

lemma dispatches_steps: "steps E w (world_of (forEach (\<lambda>a. dispatch d E a c) as w))"
  by (rule forEach_rel [where R = "steps E"]) (auto intro: steps.same steps.seq dispatch_steps)


section \<open>The concrete store\<close>

lemmas demo_defs = demo_store_def demo_registered_def demo_chained_def demo_subscribed_def
  demo_heap_def demo_env_def demo_fcall_def demo_text_of_def demo_inherited_def demo_members_def
  arg_def

lemma demo_store_constructed: "constructor (Ref 0) demo_heap = Inr demo_store"
  by (simp add: constructor_def isObj_def demo_store_def)

lemma demo_operations:
  "register (Ref 1) demo_store = Inr demo_registered"
  "chain demo_env (Str ''A'') (Ref 3) demo_registered = Inr demo_chained"
  "subscribe (Fun 1) (Fun 2) demo_chained = Inr (Num (Fin 0), demo_subscribed)"
  by (simp_all add: demo_store_def demo_registered_def demo_chained_def demo_subscribed_def
        register_def isObj_def chain_def object_prototype_keys_def subscribe_def isFunc_def on_def Let_def)

lemma demo_object_keeps:
  "x < length h \<Longrightarrow> x < length (snd (demo_object h v)) \<and> snd (demo_object h v) ! x = h ! x"
  by (cases v) (simp_all add: demo_object_def nth_append)

lemma demo_untouched: "untouched demo_env x"
  by (simp add: untouched_def demo_env_def demo_fcall_def demo_object_keeps)

lemma demo_returns: "f < 100 \<Longrightarrow> returns demo_env (Fun f)"
  by (simp add: returns_def demo_env_def demo_fcall_def)

lemma demo_store_inv: "store_inv demo_subscribed"
  by (simp add: store_inv_def demo_defs isFunc_def)

lemmas demo_eval = demo_defs make_act_eq reduce_def member_def get_prop_def obj_at_def isFunc_def
  call_Fun setState_unfold emit_def strict_neq_def Let_def

section \<open>Construction\<close>

text \<open>
  C5, as the claim states it, fails: an array is a value whose \<^verbatim>\<open>typeof\<close> is
  \<^verbatim>\<open>'object'\<close>, so the constructor accepts the array at address 4 as initial state.
\<close>

theorem constructor_accepts_array:
  "is_array (obj_at demo_heap 4) \<and> constructor (Ref 4) demo_heap \<noteq> Inl TypeError
   \<and> \<not> isl (constructor (Ref 4) demo_heap)"
  by (simp add: constructor_def isObj_def demo_heap_def obj_at_def)

text \<open>
  C5, amended: for every supplied value other than \<^verbatim>\<open>null\<close>, construction fails with a
  type error exactly when the value is a boolean, a number, a string or a function. Every
  reference to an object, a plain record or an array alike, is accepted and becomes the
  state as it is; a missing (\<^verbatim>\<open>undefined\<close>) argument is replaced by a new empty record.
\<close>

theorem constructor_type_check:
  "v \<noteq> Null \<Longrightarrow>
     (constructor v h = Inl TypeError
        \<longleftrightarrow> (\<exists>b. v = Bool b) \<or> (\<exists>n. v = Num n) \<or> (\<exists>s. v = Str s) \<or> (\<exists>f. v = Fun f))
     \<and> (\<forall>a. v = Ref a \<longrightarrow>
           constructor v h = Inr \<lparr>state = Ref a, reducer = Undefined, chains = Map.empty,
                                   subscribers = [], listeners = [], heap = h, trace = []\<rparr>)
     \<and> (v = Undefined \<longrightarrow>
           constructor v h = Inr \<lparr>state = Ref (length h), reducer = Undefined, chains = Map.empty,
                                   subscribers = [], listeners = [],
                                   heap = h @ [Obj False Map.empty], trace = []\<rparr>)"
  by (cases v) (simp_all add: constructor_def isObj_def alloc_def)

theorem constructor_type_check_witness:
  "Ref 4 \<noteq> Null \<and> constructor (Ref 4) demo_heap \<noteq> Inl TypeError
   \<and> constructor (Ref 0) demo_heap = Inr demo_store
   \<and> constructor (Str ''x'') demo_heap = Inl TypeError"
  using constructor_type_check [of "Ref 4" demo_heap] constructor_type_check [of "Ref 0" demo_heap]
    constructor_type_check [of "Str ''x''" demo_heap]
  by (simp add: demo_store_def)

section \<open>Registration\<close>

text \<open>
  C8: for reducer maps \<open>m1\<close> and \<open>m2\<close>, \<^verbatim>\<open>register(m1)\<close> followed by \<^verbatim>\<open>register(m2)\<close>
  leaves \<open>m2\<close> as the store's reducer table and nothing else of the store changed: a
  lookup in the active table is a lookup in \<open>m2\<close> alone, with no entry of \<open>m1\<close> merged in.
\<close>

theorem register_replaces_table:
  "isObj m1 \<Longrightarrow> isObj m2 \<Longrightarrow>
     register m1 w = Inr (w\<lparr>reducer := m1\<rparr>)
     \<and> register m2 (w\<lparr>reducer := m1\<rparr>) = Inr (w\<lparr>reducer := m2\<rparr>)
     \<and> member E (heap w) (reducer (w\<lparr>reducer := m2\<rparr>)) k = member E (heap w) m2 k"
  by (simp add: register_def)

theorem register_replaces_table_witness:
  "isObj (Ref 1) \<and> isObj (Ref 5)
   \<and> register (Ref 5) (world_of (register (Ref 1) demo_store)) = Inr (demo_store\<lparr>reducer := Ref 5\<rparr>)
   \<and> member demo_env (heap demo_store) (Ref 1) ''A'' = Inr (Fun 0)
   \<and> member demo_env (heap demo_store) (reducer (demo_store\<lparr>reducer := Ref 5\<rparr>)) ''A'' = Inr Undefined"
  using register_replaces_table [of "Ref 1" "Ref 5" demo_store demo_env "''A''"]
  by (simp add: isObj_def world_of_def member_def get_prop_def obj_at_def demo_defs)

section \<open>Dispatch before any registration\<close>

lemma unset_reducer_throws:
  "reducer w = Undefined \<Longrightarrow> thrown (dispatch (Suc d) E a c w) = Some TypeError"
  by (simp add: reduce_def member_def split: prod.splits)

lemma constructor_reducer: "constructor v h = Inr w \<Longrightarrow> reducer w = Undefined"
  by (auto simp: constructor_def Let_def split: if_splits prod.splits)

text \<open>
  C4 at a freshly constructed store: the constructor leaves \<^verbatim>\<open>this.reducer\<close> unset, so
  \<^verbatim>\<open>this.reducer[act.type]\<close> throws a \<^verbatim>\<open>TypeError\<close> before any warning is written.
\<close>

theorem fresh_store_dispatch_throws:
  "constructor (Ref 0) demo_heap = Inr demo_store
   \<and> thrown (dispatch (Suc 0) demo_env (Ref 6) False demo_store) = Some TypeError
   \<and> trace (world_of (dispatch (Suc 0) demo_env (Ref 6) False demo_store)) = []"
  by (simp add: demo_store_constructed make_act_def alloc_def reduce_def member_def
        demo_store_def thrown_def world_of_def Let_def)

section \<open>getState\<close>



section \<open>Subscriptions\<close>

text \<open>
  Every operation keeps \<open>store_inv\<close>, and construction establishes it.
\<close>

lemma store_inv_constructor: "constructor v h = Inr w \<Longrightarrow> store_inv w"
  by (auto simp: constructor_def store_inv_def Let_def split: if_splits prod.splits)

lemma store_inv_steps: "steps E w w' \<Longrightarrow> store_inv w \<Longrightarrow> store_inv w'"
  using steps_frame [of E w w'] by (simp add: store_inv_def)

lemma store_inv_dispatch: "store_inv w \<Longrightarrow> store_inv (world_of (dispatch d E a c w))"
  using dispatch_steps store_inv_steps by blast

lemma store_inv_register: "store_inv w \<Longrightarrow> store_inv (world_of (register r w))"
  by (simp add: register_def store_inv_def)

lemma store_inv_chain: "store_inv w \<Longrightarrow> store_inv (world_of (chain E f a w))"
  by (simp add: chain_def store_inv_def Let_def split: option.splits)

lemma store_inv_getState: "store_inv w \<Longrightarrow> store_inv (snd (getState w))"
  by (simp add: getState_eq store_inv_def)

lemma subscribe_eq:
  "isFunc cb \<Longrightarrow>
     subscribe m cb w
       = Inr (Num (Fin (int (length (subscribers w)))),
              w\<lparr>subscribers := subscribers w @ [Subscriber (length (subscribers w)) m cb],
                 listeners := listeners w @ [Subscriber (length (subscribers w)) m cb]\<rparr>)"
  by (simp add: subscribe_def on_def Let_def)

lemma store_inv_ident:
  assumes "store_inv w" and "c \<in> set (subscribers w)"
  shows "ident c < length (subscribers w) \<and> subscribers w ! ident c = c"
proof -
  obtain j where "j < length (subscribers w)" "subscribers w ! j = c"
    using assms(2) by (auto simp: in_set_conv_nth)
  then show ?thesis using assms(1) by (auto simp: store_inv_def)
qed

lemma store_inv_subscribe:
  assumes "store_inv w" and "subscribe m cb w = Inr (i, w')"
  shows "store_inv w'"
proof -
  let ?c = "Subscriber (length (subscribers w)) m cb"
  have f: "isFunc cb" using assms(2) by (auto simp: subscribe_def split: if_splits)
  then have w': "w' = w\<lparr>subscribers := subscribers w @ [?c], listeners := listeners w @ [?c]\<rparr>"
    using assms(2) by (simp add: subscribe_eq)
  have "?c \<notin> set (subscribers w)" using store_inv_ident [OF assms(1), of ?c] by auto
  then have "?c \<notin> set (listeners w)" using assms(1) by (auto simp: store_inv_def)
  then show ?thesis using assms(1) f
    by (auto simp: w' store_inv_def nth_append)
qed

lemma store_inv_unsubscribe: "store_inv w \<Longrightarrow> store_inv (world_of (unsubscribe i w))"
  by (cases "subscriber_at (subscribers w) i")
     (auto simp: unsubscribe_def off_def store_inv_def dest: notin_set_remove1 set_remove1_subset [THEN subsetD])

lemma store_inv_distinct: "store_inv w \<Longrightarrow> distinct (map ident (listeners w))"
proof -
  assume inv: "store_inv w"
  have "inj_on ident (set (listeners w))"
  proof (rule inj_onI)
    fix x y assume "x \<in> set (listeners w)" "y \<in> set (listeners w)" "ident x = ident y"
    then show "x = y" using store_inv_ident [OF inv, of x] store_inv_ident [OF inv, of y] inv
      by (auto simp: store_inv_def)
  qed
  then show ?thesis using inv by (simp add: distinct_map store_inv_def)
qed

lemma unsubscribe_detaches:
  assumes "store_inv w" and "i < length (subscribers w)"
  shows "unsubscribe (Num (Fin (int i))) w = Inr (w\<lparr>listeners := remove1 (subscribers w ! i) (listeners w)\<rparr>)"
    and "\<forall>c \<in> set (remove1 (subscribers w ! i) (listeners w)). ident c \<noteq> i"
proof -
  show "unsubscribe (Num (Fin (int i))) w = Inr (w\<lparr>listeners := remove1 (subscribers w ! i) (listeners w)\<rparr>)"
    using assms(2) by (simp add: unsubscribe_def isNumber_def off_def)
  show "\<forall>c \<in> set (remove1 (subscribers w ! i) (listeners w)). ident c \<noteq> i"
  proof
    fix c assume c: "c \<in> set (remove1 (subscribers w ! i) (listeners w))"
    have d: "distinct (listeners w)" using assms(1) by (simp add: store_inv_def)
    then have ne: "c \<noteq> subscribers w ! i" using c by auto
    have "c \<in> set (listeners w)" using c set_remove1_subset by fastforce
    then have "c \<in> set (subscribers w)" using assms(1) by (auto simp: store_inv_def)
    then have "subscribers w ! ident c = c" using store_inv_ident [OF assms(1)] by blast
    then show "ident c \<noteq> i" using ne by auto
  qed
qed

text \<open>
  C7: \<^verbatim>\<open>unsubscribe(index)\<close> throws a \<^verbatim>\<open>TypeError\<close> whenever \<open>index\<close> is not a
  number. For an index \<open>i\<close> that \<^verbatim>\<open>subscribe\<close> has returned, \<^verbatim>\<open>unsubscribe(i)\<close>
  returns, and however many dispatches follow (whether they return or throw), none of them
  calls the callback of the subscriber at index \<open>i\<close>.
\<close>

theorem unsubscribe_stops_notifications:
  "(\<not> isNumber index \<longrightarrow> unsubscribe index w = Inl (TypeError, w))
   \<and> (store_inv w \<and> i < length (subscribers w) \<longrightarrow>
        (\<exists>w'. unsubscribe (Num (Fin (int i))) w = Inr w'
           \<and> calls i (trace (world_of (forEach (\<lambda>a. dispatch d E a c) as w'))) = calls i (trace w')))"
proof (intro conjI impI)
  assume "\<not> isNumber index"
  then show "unsubscribe index w = Inl (TypeError, w)" by (simp add: unsubscribe_def)
next
  assume a: "store_inv w \<and> i < length (subscribers w)"
  let ?w' = "w\<lparr>listeners := remove1 (subscribers w ! i) (listeners w)\<rparr>"
  have u: "unsubscribe (Num (Fin (int i))) w = Inr ?w'" using a unsubscribe_detaches(1) by blast
  have "\<forall>c \<in> set (listeners ?w'). ident c \<noteq> i" using a unsubscribe_detaches(2) [of w i] by simp
  then have "calls i (trace (world_of (forEach (\<lambda>a. dispatch d E a c) as ?w'))) = calls i (trace ?w')"
    using dispatches_steps steps_calls by blast
  then show "\<exists>w'. unsubscribe (Num (Fin (int i))) w = Inr w'
           \<and> calls i (trace (world_of (forEach (\<lambda>a. dispatch d E a c) as w'))) = calls i (trace w')"
    using u by blast
qed

theorem unsubscribe_stops_notifications_witness:
  "\<not> isNumber (Str ''0'') \<and> unsubscribe (Str ''0'') demo_subscribed = Inl (TypeError, demo_subscribed)
   \<and> subscribe (Fun 1) (Fun 2) demo_chained = Inr (Num (Fin 0), demo_subscribed)
   \<and> store_inv demo_subscribed \<and> 0 < length (subscribers demo_subscribed)
   \<and> calls 0 (trace (world_of (dispatch (Suc (Suc 0)) demo_env (Ref 2) False demo_subscribed)))
        = [Called 0 (Ref 7) (Ref 0) (Num (Fin 1)), Called 0 (Ref 9) (Num (Fin 1)) (Num (Fin 2))]
   \<and> unsubscribe (Num (Fin 0)) demo_subscribed = Inr (demo_subscribed\<lparr>listeners := []\<rparr>)
   \<and> calls 0 (trace (world_of (forEach (\<lambda>a. dispatch (Suc (Suc 0)) demo_env a False) [Ref 2, Ref 3, Ref 2]
                                  (demo_subscribed\<lparr>listeners := []\<rparr>)))) = []"
proof -
  note t = unsubscribe_stops_notifications [where index = "Str ''0''" and w = demo_subscribed and i = 0
        and d = "Suc (Suc 0)" and E = demo_env and c = False and as = "[Ref 2, Ref 3, Ref 2]"]
  have n: "\<not> isNumber (Str ''0'')" by (simp add: isNumber_def)
  have l: "0 < length (subscribers demo_subscribed)" by (simp add: demo_defs)
  have u: "unsubscribe (Num (Fin 0)) demo_subscribed = Inr (demo_subscribed\<lparr>listeners := []\<rparr>)"
    by (simp add: unsubscribe_def isNumber_def off_def demo_defs)
  have before: "calls 0 (trace (world_of (dispatch (Suc (Suc 0)) demo_env (Ref 2) False demo_subscribed)))
        = [Called 0 (Ref 7) (Ref 0) (Num (Fin 1)), Called 0 (Ref 9) (Num (Fin 1)) (Num (Fin 2))]"
    by (simp add: demo_eval calls_def)
  have after: "calls 0 (trace (world_of (forEach (\<lambda>a. dispatch (Suc (Suc 0)) demo_env a False) [Ref 2, Ref 3, Ref 2]
                                  (demo_subscribed\<lparr>listeners := []\<rparr>)))) = []"
    using t demo_store_inv l u by (simp add: demo_defs calls_def)
  have e: "unsubscribe (Str ''0'') demo_subscribed = Inl (TypeError, demo_subscribed)"
    using t n by blast
  show ?thesis using n e demo_operations(3) demo_store_inv l before u after by (intro conjI) assumption+
qed

section \<open>The state field\<close>

lemma added_steps:
  assumes "steps E w (world_of r)"
  shows "trace (world_of r) = trace w @ added w r \<and> replay (state w) (added w r) = Some (state (world_of r))"
proof -
  obtain es where "trace (world_of r) = trace w @ es" "replay (state w) es = Some (state (world_of r))"
    using steps_replay [OF assms] by blast
  then show ?thesis by (simp add: added_def)
qed

lemma setState_changes: "filter is_change (added w (setState E s a w)) = [Change a (state w) s]"
proof -
  let ?w1 = "w\<lparr>state := s, trace := trace w @ [Change a (state w) s]\<rparr>"
  let ?r = "emit (subscriber E) (a, state w, s) ?w1"
  obtain es where es: "trace (world_of ?r) = trace ?w1 @ es"
    and c: "\<forall>e \<in> set es. \<exists>c \<in> set (listeners ?w1). \<exists>a p t. e = Called (ident c) a p t"
    using notifying_trace [OF emit_notifying] by blast
  have "\<forall>e \<in> set es. \<not> is_change e" using c by fastforce
  then have "filter is_change es = []" by simp
  then show ?thesis using es by (simp add: added_def setState_unfold)
qed

text \<open>
  C10: \<^verbatim>\<open>getState\<close>, \<^verbatim>\<open>register\<close>, \<^verbatim>\<open>chain\<close>, \<^verbatim>\<open>subscribe\<close> and \<^verbatim>\<open>unsubscribe\<close> leave
  the state field as it is, whether they return or throw. \<^verbatim>\<open>setState\<close> sets it and emits
  exactly one \<^verbatim>\<open>'change'\<close> event, which carries the action, the previous state and the
  new state. The events a dispatch emits replay from the state before the dispatch to the
  state after it: each transition has its event, and the state never moves without one.
\<close>

theorem state_changes_only_by_setState:
  "state (snd (getState w)) = state w
   \<and> state (world_of (register r w)) = state w
   \<and> state (world_of (chain E f a w)) = state w
   \<and> (case subscribe m cb w of Inl (e, w') \<Rightarrow> state w' = state w | Inr (i, w') \<Rightarrow> state w' = state w)
   \<and> state (world_of (unsubscribe i w)) = state w
   \<and> state (world_of (setState E s a w)) = s
   \<and> filter is_change (added w (setState E s a w)) = [Change a (state w) s]
   \<and> replay (state w) (added w (dispatch d E a c w)) = Some (state (world_of (dispatch d E a c w)))"
proof -
  have "state (world_of (unsubscribe i w)) = state w"
    by (cases "subscriber_at (subscribers w) i") (simp_all add: unsubscribe_def off_def)
  moreover have "case subscribe m cb w of Inl (e, w') \<Rightarrow> state w' = state w | Inr (i, w') \<Rightarrow> state w' = state w"
    by (simp add: subscribe_def on_def Let_def)
  moreover have "replay (state w) (added w (dispatch d E a c w)) = Some (state (world_of (dispatch d E a c w)))"
    using added_steps [OF dispatch_steps] by blast
  moreover have "state (world_of (chain E f a w)) = state w"
    by (simp add: chain_def Let_def split: option.splits)
  ultimately show ?thesis
    by (simp add: getState_eq register_def setState_state setState_changes)
qed

theorem state_changes_only_by_setState_witness:
  "state (snd (getState demo_subscribed)) = Ref 0
   \<and> state (world_of (register (Ref 5) demo_subscribed)) = Ref 0
   \<and> state (world_of (chain demo_env (Str ''B'') (Ref 2) demo_subscribed)) = Ref 0
   \<and> state (world_of (unsubscribe (Num (Fin 0)) demo_subscribed)) = Ref 0
   \<and> added demo_subscribed (dispatch (Suc (Suc 0)) demo_env (Ref 2) False demo_subscribed)
       = [Change (Ref 7) (Ref 0) (Num (Fin 1)), Called 0 (Ref 7) (Ref 0) (Num (Fin 1)),
          Change (Ref 9) (Num (Fin 1)) (Num (Fin 2)), Called 0 (Ref 9) (Num (Fin 1)) (Num (Fin 2))]
   \<and> replay (Ref 0) (added demo_subscribed (dispatch (Suc (Suc 0)) demo_env (Ref 2) False demo_subscribed))
       = Some (Num (Fin 2))
   \<and> state (world_of (dispatch (Suc (Suc 0)) demo_env (Ref 2) False demo_subscribed)) = Num (Fin 2)"
  using state_changes_only_by_setState [where w = demo_subscribed and r = "Ref 5" and E = demo_env
      and f = "Str ''B''" and a = "Ref 2" and i = "Num (Fin 0)" and d = "Suc (Suc 0)" and c = False]
  by (simp add: demo_defs) (simp add: demo_eval added_def)

section \<open>The action object\<close>

text \<open>
  C9: \<^verbatim>\<open>dispatch\<close> builds its copy of the action in a new object, which holds the
  action's properties and the chained marker. As long as the caller's own functions leave
  the action object alone, it is after the dispatch (returned or thrown) exactly what it
  was before: in particular it has gained no \<^verbatim>\<open>'@@chained'\<close> field.
\<close>

theorem dispatch_keeps_action:
  assumes "untouched E x" and "x < length (heap w)"
  shows "obj_at (heap (world_of (dispatch d E (Ref x) c w))) x = obj_at (heap w) x
     \<and> fst (make_act (Ref x) c (heap w)) = Ref (length (heap w))
     \<and> fst (make_act (Ref x) c (heap w)) \<noteq> Ref x
     \<and> props (obj_at (snd (make_act (Ref x) c (heap w))) (length (heap w)))
          = (props (obj_at (heap w) x))(''@@chained'' \<mapsto> Bool c)"
proof -
  have "obj_at (heap (world_of (dispatch d E (Ref x) c w))) x = obj_at (heap w) x"
    using dispatch_steps assms by (rule steps_obj_at)
  then show ?thesis using assms(2) by (simp add: make_act_eq obj_at_def)
qed

theorem dispatch_keeps_action_witness:
  "untouched demo_env 2 \<and> 2 < length (heap demo_subscribed)
   \<and> obj_at (heap (world_of (dispatch (Suc (Suc 0)) demo_env (Ref 2) False demo_subscribed))) 2
       = obj_at demo_heap 2
   \<and> props (obj_at (heap (world_of (dispatch (Suc (Suc 0)) demo_env (Ref 2) False demo_subscribed))) 2) ''@@chained''
       = None
   \<and> props (obj_at (heap (world_of (dispatch (Suc (Suc 0)) demo_env (Ref 2) False demo_subscribed))) 7) ''@@chained''
       = Some (Bool False)
   \<and> fst (make_act (Ref 2) False (heap demo_subscribed)) = Ref 7"
  using dispatch_keeps_action [where E = demo_env and x = 2 and w = demo_subscribed and d = "Suc (Suc 0)"
      and c = False] demo_untouched
  by (simp add: demo_defs obj_at_def) (simp add: demo_eval)

section \<open>The reducer step\<close>

text \<open>
  The copy of the action holds the own properties of the action and the chained marker,
  and keeps them as long as the caller's functions leave the copy alone.
\<close>

lemma act_own_props:
  assumes "make_act a c h0 = (act, h)" and "obj_at h' (length h0) = obj_at h (length h0)"
  shows "own_props h' act = (own_props h0 a)(''@@chained'' \<mapsto> Bool c)"
proof -
  have act: "act = Ref (length h0)" using assms(1) by (auto simp: make_act_eq)
  have "own_props h' act = own_props h act" using assms(2) by (simp add: act)
  then show ?thesis using make_act_own_props [of a c h0] assms(1) by simp
qed

lemma act_kept:
  assumes "make_act a c (heap w) = (act, h)" and "untouched E (length (heap w))"
    and "steps E (w\<lparr>heap := h\<rparr>) w1"
  shows "own_props (heap w1) act = (own_props (heap w) a)(''@@chained'' \<mapsto> Bool c)"
proof -
  have "length (heap w) < length (heap (w\<lparr>heap := h\<rparr>))" using assms(1) by (auto simp: make_act_eq)
  then have "obj_at (heap w1) (length (heap w)) = obj_at h (length (heap w))"
    using steps_obj_at [OF assms(3) assms(2)] by simp
  then show ?thesis using assms(1) by (rule act_own_props [rotated])
qed

lemma own_type: "own_props h act ''type'' = Some (Str T) \<Longrightarrow> to_key E h (get_prop E h act ''type'') = T"
  by (simp add: get_prop_def)

text \<open>With no action chained to the type of the action, the dispatch is its reducer step.\<close>

lemma dispatch_unchained:
  assumes "own_props (heap w) a ''type'' = Some (Str T)" and "make_act a c (heap w) = (act, h)"
    and "chains w T = None"
    and "own_props (heap (world_of (reduce E act (w\<lparr>heap := h\<rparr>)))) act ''type'' = Some (Str T)"
  shows "dispatch (Suc d) E a c w = reduce E act (w\<lparr>heap := h\<rparr>)"
proof (cases "reduce E act (w\<lparr>heap := h\<rparr>)")
  case (Inl p)
  then show ?thesis using assms(2) by simp
next
  case (Inr w1)
  have "chains w1 = chains w"
    using steps_frame [OF reduce_steps [where w = "w\<lparr>heap := h\<rparr>" and E = E and act = act]] Inr by simp
  moreover have "to_key E (heap w1) (get_prop E (heap w1) act ''type'') = T"
    using assms(4) Inr by (simp add: own_type)
  ultimately show ?thesis using assms(2,3) Inr by simp
qed

lemma reducer_step_registered:
  assumes "own_props (heap w) a ''type'' = Some (Str T)" and "make_act a c (heap w) = (act, h)"
    and "member E h (reducer w) T = Inr (Fun f)"
    and "fcall E f h (reducer w) [state w, get_prop E h act ''payload''] = (Inr s, hr)"
  shows "reduce E act (w\<lparr>heap := h\<rparr>) = setState E s act (w\<lparr>heap := hr\<rparr>)"
proof -
  let ?start = "w\<lparr>heap := h\<rparr>"
  have "own_props h act ''type'' = Some (Str T)"
    using act_own_props [OF assms(2), of h] assms(1) by simp
  then have "to_key E (heap ?start) (get_prop E (heap ?start) act ''type'') = T"
    by (simp add: own_type)
  then show ?thesis
    using assms(3,4) reduce_registered [where w = ?start and E = E and act = act and f = f and s = s and h' = hr]
    by simp
qed




section \<open>Chains\<close>

text \<open>
  C2 at a store on which \<^verbatim>\<open>chain\<close> was called and \<^verbatim>\<open>register\<close> was not:
  \<^verbatim>\<open>chain('A', actionB)\<close> stores \<^verbatim>\<open>actionB\<close> under \<^verbatim>\<open>'A'\<close>, and the dispatch of
  \<^verbatim>\<open>actionA\<close> then throws a \<^verbatim>\<open>TypeError\<close> at \<^verbatim>\<open>this.reducer[act.type]\<close>, before the
  chained actions are looked up: \<^verbatim>\<open>actionB\<close> is not dispatched, and no warning and no
  change is written. On the same store with a reducer table registered, the dispatch of
  \<^verbatim>\<open>actionA\<close> does go on to dispatch \<^verbatim>\<open>actionB\<close>, in a copy that carries
  \<^verbatim>\<open>'@@chained': true\<close> and on the state that the reducer of \<^verbatim>\<open>'A'\<close> returned. A second
  slip: a chain under a name that \<^verbatim>\<open>Object.prototype\<close> defines throws and stores nothing.
\<close>

theorem chained_action_not_dispatched:
  "constructor (Ref 0) demo_heap = Inr demo_store
   \<and> chain demo_env (Str ''A'') (Ref 3) demo_store = Inr (demo_store\<lparr>chains := [''A'' \<mapsto> [Ref 3]]\<rparr>)
   \<and> thrown (dispatch (Suc (Suc 0)) demo_env (Ref 2) False (demo_store\<lparr>chains := [''A'' \<mapsto> [Ref 3]]\<rparr>))
        = Some TypeError
   \<and> trace (world_of (dispatch (Suc (Suc 0)) demo_env (Ref 2) False (demo_store\<lparr>chains := [''A'' \<mapsto> [Ref 3]]\<rparr>)))
        = []
   \<and> register (Ref 1) (demo_store\<lparr>chains := [''A'' \<mapsto> [Ref 3]]\<rparr>) = Inr demo_chained
   \<and> thrown (dispatch (Suc (Suc 0)) demo_env (Ref 2) False demo_chained) = None
   \<and> trace (world_of (dispatch (Suc (Suc 0)) demo_env (Ref 2) False demo_chained))
        = [Change (Ref 7) (Ref 0) (Num (Fin 1)), Change (Ref 9) (Num (Fin 1)) (Num (Fin 2))]
   \<and> props (obj_at (heap (world_of (dispatch (Suc (Suc 0)) demo_env (Ref 2) False demo_chained))) 9)
        = [''type'' \<mapsto> Str ''B'', ''payload'' \<mapsto> Num (Fin 2), ''@@chained'' \<mapsto> Bool True]
   \<and> chain demo_env (Str ''toString'') (Ref 3) demo_registered = Inl (TypeError, demo_registered)"
proof -
  let ?w = "demo_store\<lparr>chains := [''A'' \<mapsto> [Ref 3]]\<rparr>"
  have c: "chain demo_env (Str ''A'') (Ref 3) demo_store = Inr ?w"
    by (simp add: chain_def object_prototype_keys_def demo_store_def)
  have t: "thrown (dispatch (Suc (Suc 0)) demo_env (Ref 2) False ?w) = Some TypeError"
    by (rule unset_reducer_throws) (simp add: demo_store_def)
  have e: "trace (world_of (dispatch (Suc (Suc 0)) demo_env (Ref 2) False ?w)) = []"
    by (simp add: make_act_def alloc_def reduce_def member_def demo_store_def Let_def)
  have r: "register (Ref 1) ?w = Inr demo_chained"
    by (simp add: register_def isObj_def demo_store_def demo_registered_def demo_chained_def)
  have d: "thrown (dispatch (Suc (Suc 0)) demo_env (Ref 2) False demo_chained) = None"
    "trace (world_of (dispatch (Suc (Suc 0)) demo_env (Ref 2) False demo_chained))
        = [Change (Ref 7) (Ref 0) (Num (Fin 1)), Change (Ref 9) (Num (Fin 1)) (Num (Fin 2))]"
    "props (obj_at (heap (world_of (dispatch (Suc (Suc 0)) demo_env (Ref 2) False demo_chained))) 9)
        = [''type'' \<mapsto> Str ''B'', ''payload'' \<mapsto> Num (Fin 2), ''@@chained'' \<mapsto> Bool True]"
    by (simp_all add: demo_eval)
  have s: "chain demo_env (Str ''toString'') (Ref 3) demo_registered = Inl (TypeError, demo_registered)"
    by (simp add: chain_def object_prototype_keys_def demo_store_def demo_registered_def)
  show ?thesis using demo_store_constructed c t e r d s by (intro conjI) assumption+
qed

section \<open>Subscribers\<close>

lemma returns_fcall:
  assumes "returns E (Fun n)"
  obtains v h' where "fcall E n h t args = (Inr v, h')"
proof (cases "fcall E n h t args")
  case (Pair r h')
  have "\<not> isl (fst (fcall E n h t args))" using assms by (simp add: returns_def)
  then obtain v where "r = Inr v" using Pair by (cases r) simp_all
  then show ?thesis using Pair that by simp
qed

lemma subscriber_run:
  assumes "returns E (stateMapper c)" and "returns E (callback c)"
  shows "\<exists>w'. subscriber E c ev w = Inr w' \<and> trace w' = trace w @ expected_calls E c ev (heap w)"
proof -
  obtain i m cb where c: "c = Subscriber i (Fun m) (Fun cb)"
    and rm: "returns E (Fun m)" and rc: "returns E (Fun cb)"
    using assms by (cases c) (auto simp: returns_def)
  obtain action prev st where ev: "ev = (action, prev, st)" by (cases ev)
  obtain target h1 where m1: "fcall E m (heap w) Undefined [st] = (Inr target, h1)"
    using rm by (rule returns_fcall)
  obtain prevTarget h2 where m2: "fcall E m h1 Undefined [prev] = (Inr prevTarget, h2)"
    using rm by (rule returns_fcall)
  obtain r h3 where m3: "fcall E cb h2 Undefined [action, prevTarget, target] = (Inr r, h3)"
    using rc by (rule returns_fcall)
  show ?thesis
    using m1 m2 m3 by (simp add: c ev call_def)
qed

lemma expected_calls_own: "calls (ident c) (expected_calls E c ev h) = expected_calls E c ev h"
  by (induction E c ev h rule: expected_calls.induct)
     (simp_all add: calls_def split: prod.splits sum.splits)

lemma expected_calls_other: "ident c \<noteq> i \<Longrightarrow> calls i (expected_calls E c ev h) = []"
  by (induction E c ev h rule: expected_calls.induct)
     (simp_all add: calls_def split: prod.splits sum.splits)

lemma listeners_return:
  "\<forall>l \<in> set cs. returns E (stateMapper l) \<and> returns E (callback l) \<Longrightarrow>
     \<exists>w'. forEach (\<lambda>l. subscriber E l ev) cs w = Inr w'"
proof (induction cs arbitrary: w)
  case (Cons l cs)
  then obtain w1 where "subscriber E l ev w = Inr w1" using subscriber_run [of E l ev w] by auto
  then show ?case using Cons by simp
qed simp

lemma listeners_run:
  assumes "\<forall>l \<in> set cs. returns E (stateMapper l) \<and> returns E (callback l)"
    and "distinct (map ident cs)" and "c \<in> set cs"
  shows "\<exists>w'. forEach (\<lambda>l. subscriber E l ev) cs w = Inr w'
           \<and> calls (ident c) (drop (length (trace w)) (trace w'))
               = expected_calls E c ev
                   (heap (world_of (forEach (\<lambda>l. subscriber E l ev) (takeWhile (\<lambda>l. l \<noteq> c) cs) w)))"
  using assms
proof (induction cs arbitrary: w)
  case Nil
  then show ?case by simp
next
  case (Cons l cs)
  obtain w1 where w1: "subscriber E l ev w = Inr w1"
    and t1: "trace w1 = trace w @ expected_calls E l ev (heap w)"
    using subscriber_run [of E l ev w] Cons.prems(1) by auto
  obtain w' where w': "forEach (\<lambda>l. subscriber E l ev) cs w1 = Inr w'"
    using listeners_return [of cs E ev w1] Cons.prems(1) by auto
  obtain es where es: "trace w' = trace w1 @ es"
    and ids: "\<forall>e \<in> set es. \<exists>x \<in> set cs. \<exists>a p t. e = Called (ident x) a p t"
    using notifying_trace [OF listeners_notifying [where E = E and cs = cs and w = w1 and ev = ev]] w' by auto
  have run: "forEach (\<lambda>l. subscriber E l ev) (l # cs) w = Inr w'" using w1 w' by simp
  have new: "drop (length (trace w)) (trace w') = expected_calls E l ev (heap w) @ es"
    using t1 es by simp
  show ?case
  proof (cases "c = l")
    case True
    have "\<forall>x \<in> set cs. ident x \<noteq> ident l" using Cons.prems(2) by (auto simp: image_iff)
    then have "\<forall>e \<in> set es. \<not> is_call (ident l) e" using ids by fastforce
    then have "calls (ident l) es = []" by (simp add: calls_def)
    then have "calls (ident c) (drop (length (trace w)) (trace w')) = expected_calls E c ev (heap w)"
      using new True by (simp add: expected_calls_own)
    then show ?thesis using run True by simp
  next
    case False
    then have c: "c \<in> set cs" using Cons.prems(3) by simp
    then have "ident l \<noteq> ident c" using Cons.prems(2) by (auto simp: image_iff)
    then have own: "calls (ident c) (expected_calls E l ev (heap w)) = []"
      by (rule expected_calls_other)
    let ?h = "heap (world_of (forEach (\<lambda>l. subscriber E l ev) (takeWhile (\<lambda>l. l \<noteq> c) cs) w1))"
    obtain w'' where "forEach (\<lambda>l. subscriber E l ev) cs w1 = Inr w''"
      and "calls (ident c) (drop (length (trace w1)) (trace w'')) = expected_calls E c ev ?h"
      using Cons.IH [of w1] Cons.prems c by auto
    then have "calls (ident c) es = expected_calls E c ev ?h" using w' es by simp
    then have "calls (ident c) (drop (length (trace w)) (trace w')) = expected_calls E c ev ?h"
      using new own by simp
    then show ?thesis using run False w1 by simp
  qed
qed

text \<open>
  What the reducer step does to one attached subscriber when it commits a transition.
\<close>

lemma committed_calls:
  assumes "store_inv w" and "\<forall>l \<in> set (listeners w). returns E (stateMapper l) \<and> returns E (callback l)"
    and "c \<in> set (listeners w)"
    and "committed = w\<lparr>heap := hr, state := nextState, trace := trace w @ [Change act (state w) nextState]\<rparr>"
  shows "\<exists>w'. setState E nextState act (w\<lparr>heap := hr\<rparr>) = Inr w' \<and> state w' = nextState
           \<and> drop (length (trace w)) (trace w') = Change act (state w) nextState # drop (Suc (length (trace w))) (trace w')
           \<and> calls (ident c) (drop (length (trace w)) (trace w'))
               = expected_calls E c (act, state w, nextState)
                   (turn_heap E c (act, state w, nextState) committed)"
proof -
  let ?ev = "(act, state w, nextState)"
  have set: "setState E nextState act (w\<lparr>heap := hr\<rparr>)
      = forEach (\<lambda>l. subscriber E l ?ev) (listeners w) committed"
    using assms(4) by (simp add: setState_unfold emit_def)
  have ls: "listeners committed = listeners w" using assms(4) by simp
  obtain w' where run: "forEach (\<lambda>l. subscriber E l ?ev) (listeners w) committed = Inr w'"
    and cs: "calls (ident c) (drop (length (trace committed)) (trace w'))
               = expected_calls E c ?ev (turn_heap E c ?ev committed)"
    using listeners_run [OF assms(2) store_inv_distinct [OF assms(1)] assms(3), of ?ev committed]
    by (auto simp: turn_heap_def ls)
  obtain es where es: "trace w' = trace committed @ es"
    using notifying_trace [OF listeners_notifying [where E = E and cs = "listeners w" and w = committed and ev = ?ev]]
      run by auto
  have st: "state w' = nextState"
    using notifying_frame [OF listeners_notifying [where E = E and cs = "listeners w" and w = committed and ev = ?ev]]
      run assms(4) by simp
  have tr: "trace w' = trace w @ Change act (state w) nextState # es"
    using es assms(4) by simp
  have "drop (length (trace committed)) (trace w') = es" using es by simp
  then have "calls (ident c) (drop (length (trace w)) (trace w'))
      = expected_calls E c ?ev (turn_heap E c ?ev committed)"
    using cs tr by (simp add: calls_def)
  then show ?thesis using set run st tr by simp
qed


text \<open>
  A subscriber stays attached, and the store stays as its operations build it, through
  everything the caller does but unsubscribe it.
\<close>

lemma later_attached:
  assumes "later E i w w'" and "store_inv w" and "c \<in> set (listeners w)" and "ident c = i"
  shows "store_inv w' \<and> c \<in> set (listeners w')"
  using assms
proof (induction rule: later.induct)
  case (dispatched w d a b)
  have "listeners (world_of (dispatch d E a b w)) = listeners w"
    using steps_frame [OF dispatch_steps] by blast
  then show ?case using dispatched by (simp add: store_inv_dispatch)
next
  case (registered w r)
  have "listeners (world_of (register r w)) = listeners w" by (simp add: register_def)
  then show ?case using registered by (simp add: store_inv_register)
next
  case (chained w f a)
  have "listeners (world_of (chain E f a w)) = listeners w"
    by (simp add: chain_def Let_def split: option.splits)
  then show ?case using chained by (simp add: store_inv_chain)
next
  case (read w)
  then show ?case by (simp add: store_inv_getState) (simp add: getState_eq)
next
  case (subscribed m cb w j w')
  have f: "isFunc cb" using subscribed(1) by (auto simp: subscribe_def split: if_splits)
  have "listeners w' = listeners w @ [Subscriber (length (subscribers w)) m cb]"
    using subscribed(1) f by (auto simp: subscribe_eq)
  then show ?case using subscribed store_inv_subscribe [of w m cb j w'] by simp
next
  case (unsubscribed j w)
  have "c \<in> set (listeners (world_of (unsubscribe j w)))"
  proof (cases "subscriber_at (subscribers w) j")
    case None
    then show ?thesis using unsubscribed(3) by (simp add: unsubscribe_def off_def)
  next
    case (Some x)
    have "\<exists>k. j = Num (Fin k) \<and> 0 \<le> k \<and> nat k < length (subscribers w) \<and> x = subscribers w ! nat k"
    proof (cases j)
      case (Num n)
      then show ?thesis using Some by (cases n) (auto split: if_splits)
    qed (use Some in simp_all)
    then obtain k where k: "j = Num (Fin k)" "0 \<le> k" "nat k < length (subscribers w)" "x = subscribers w ! nat k"
      by blast
    have "ident x = nat k" using unsubscribed(2) k(3,4) by (simp add: store_inv_def)
    moreover have "nat k \<noteq> i" using unsubscribed(1) k(1,2) by auto
    ultimately have "x \<noteq> c" using unsubscribed(4) by auto
    then have "c \<in> set (remove1 x (listeners w))" using unsubscribed(3) by simp
    then show ?thesis using Some k(1) by (simp add: unsubscribe_def isNumber_def off_def)
  qed
  then show ?case using unsubscribed(2) by (simp add: store_inv_unsubscribe)
qed simp_all



end
